theory Spec2Isabelle
  imports Main "HOL-Library.Sublist"
begin

section \<open>Common data\<close>

text \<open>
  Python \<open>str\<close> values are modelled as \<open>string\<close>, one \<open>char\<close> per code point (the
  Latin-1 range).  Exceptions are values of \<open>error\<close>.
\<close>

datatype error =
  TypeError | ValueError | KeyError string | MissingVariables string | ClickException string

section \<open>utils.py: remove_pref\<close>

text \<open>
  A chunk of the stream \<open>r\<close> is either already a \<open>str\<close> or some other object that
  \<open>preproc\<close> has to turn into text.
\<close>

datatype 'r chunk = Txt string | Raw 'r

text \<open>
  The class \<open>\s\<close> of \<open>re\<close> on \<open>str\<close> patterns, restricted to code points below 256:
  TAB..CR, FS..US, space, NEL and the no-break space.
\<close>

definition is_space :: "char \<Rightarrow> bool" where
  "is_space c =
     (let n = (of_char c :: nat)
      in (9 \<le> n \<and> n \<le> 13) \<or> (28 \<le> n \<and> n \<le> 31) \<or> n = 32 \<or> n = 133 \<or> n = 160)"

text \<open>
  \<open>re.search(r'\s$', p)\<close>: some position holds a whitespace character and is followed by
  the end of the string, or by a newline that ends the string (\<open>$\<close> without MULTILINE).
\<close>

definition search_ws_end :: "string \<Rightarrow> bool" where
  "search_ws_end p =
     list_ex (\<lambda>i. is_space (p ! i) \<and>
                   (Suc i = length p \<or> (Suc (Suc i) = length p \<and> p ! Suc i = CHR 0x0A)))
       [0..<length p]"

text \<open>\<open>if store is not None: store.append(x)\<close>\<close>

definition store_append :: "'a list option \<Rightarrow> 'a \<Rightarrow> 'a list option" where
  "store_append store x = (case store of None \<Rightarrow> None | Some s \<Rightarrow> Some (s @ [x]))"

text \<open>\<open>if preproc and not isinstance(x,str): x = preproc(x)\<close>\<close>

fun apply_preproc :: "('r \<Rightarrow> string) option \<Rightarrow> 'r chunk \<Rightarrow> 'r chunk" where
  "apply_preproc (Some f) (Raw x) = Txt (f x)"
| "apply_preproc preproc x = x"

text \<open>
  The state at the end of the first \<open>for\<close> loop: the buffer, the flag \<open>has_pre\<close>, the store
  and what is left of the iterator \<open>ir\<close>.
\<close>

record 'r loop_state =
  buffer :: string
  has_pre :: bool
  store :: "'r chunk list option"
  ir :: "'r chunk list"

text \<open>
  The first loop.  \<open>buffer += x\<close> raises \<open>TypeError\<close> when \<open>x\<close> is still not a \<open>str\<close>; the
  store has been appended to by then.
\<close>

fun first_loop ::
  "string \<Rightarrow> ('r \<Rightarrow> string) option \<Rightarrow> string \<Rightarrow> 'r chunk list option \<Rightarrow> 'r chunk list
     \<Rightarrow> (error \<times> 'r chunk list option) + 'r loop_state" where
  "first_loop p preproc buf st [] =
     Inr \<lparr>buffer = buf, has_pre = False, store = st, ir = []\<rparr>"
| "first_loop p preproc buf st (x # xs) =
     (let st' = store_append st x
      in case apply_preproc preproc x of
           Raw y \<Rightarrow> Inl (TypeError, st')
         | Txt s \<Rightarrow>
             (let buf' = buf @ s
              in if prefix p buf'
                 then Inr \<lparr>buffer = drop (length p) buf', has_pre = True, store = st', ir = xs\<rparr>
                 else if \<not> prefix (take (length p + 1) buf') p
                 then Inr \<lparr>buffer = buf', has_pre = False, store = st', ir = xs\<rparr>
                 else first_loop p preproc buf' st' xs))"

text \<open>The second loop: every remaining chunk is stored, preprocessed and yielded.\<close>

fun second_loop ::
  "('r \<Rightarrow> string) option \<Rightarrow> 'r chunk list option \<Rightarrow> 'r chunk list
     \<Rightarrow> 'r chunk list \<times> 'r chunk list option" where
  "second_loop preproc st [] = ([], st)"
| "second_loop preproc st (x # xs) =
     (let st' = store_append st x;
          y = apply_preproc preproc x;
          (ys, st'') = second_loop preproc st' xs
      in (y # ys, st''))"

text \<open>
  Running the generator to its end: the segments it yielded, the store afterwards and the
  exception that ended it, if any.
\<close>

record 'r run =
  segments :: "'r chunk list"
  store_after :: "'r chunk list option"
  raised :: "error option"

definition remove_pref ::
  "string \<Rightarrow> 'r chunk list \<Rightarrow> 'r chunk list option \<Rightarrow> ('r \<Rightarrow> string) option \<Rightarrow> 'r run" where
  "remove_pref p r st preproc =
     (case first_loop p preproc [] st r of
        Inl (e, st') \<Rightarrow> \<lparr>segments = [], store_after = st', raised = Some e\<rparr>
      | Inr l \<Rightarrow>
          (let (ys, st'') = second_loop preproc (store l) (ir l)
           in \<lparr>segments =
                  Txt p # (if \<not> has_pre l \<and> \<not> search_ws_end p then [Txt '' ''] else [])
                    @ Txt (buffer l) # ys,
                store_after = st'', raised = None\<rparr>))"

text \<open>\<open>''.join(segments)\<close>, which needs every segment to be a \<open>str\<close>.\<close>

fun join_segments :: "'r chunk list \<Rightarrow> error + string" where
  "join_segments [] = Inr []"
| "join_segments (Raw y # xs) = Inl TypeError"
| "join_segments (Txt s # xs) =
     (case join_segments xs of Inl e \<Rightarrow> Inl e | Inr t \<Rightarrow> Inr (s @ t))"

text \<open>
  Whether the first loop judged the prefill present: the flag \<open>has_pre\<close> it ends with.
\<close>

definition prefill_present :: "string \<Rightarrow> 'r chunk list \<Rightarrow> ('r \<Rightarrow> string) option \<Rightarrow> bool" where
  "prefill_present p r preproc =
     (case first_loop p preproc [] None r of Inl e \<Rightarrow> False | Inr l \<Rightarrow> has_pre l)"

section \<open>templates.py: Template\<close>

subsection \<open>The pattern of \<open>string.Template\<close>\<close>

text \<open>
  The pattern of \<open>string.Template\<close> matches the delimiter \<open>$\<close> followed by one of four
  alternatives, tried in this order: a second \<open>$\<close> (group \<open>escaped\<close>), an identifier (group
  \<open>named\<close>), an identifier in braces (group \<open>braced\<close>), or nothing (group \<open>invalid\<close>).  An
  identifier is a letter or underscore followed by letters, digits and underscores, in
  ASCII and in either case.  The two character classes of an identifier:
\<close>

definition is_id_start :: "char \<Rightarrow> bool" where
  "is_id_start c =
     (let n = (of_char c :: nat)
      in n = 95 \<or> (97 \<le> n \<and> n \<le> 122) \<or> (65 \<le> n \<and> n \<le> 90))"

definition is_id_char :: "char \<Rightarrow> bool" where
  "is_id_char c = (is_id_start c \<or> (48 \<le> (of_char c :: nat) \<and> (of_char c :: nat) \<le> 57))"

text \<open>A whole string that matches \<open>id\<close>.\<close>

definition is_identifier :: "string \<Rightarrow> bool" where
  "is_identifier x =
     (case x of [] \<Rightarrow> False | e # es \<Rightarrow> is_id_start e \<and> list_all is_id_char es)"

text \<open>
  A match of the pattern sets exactly one of its four groups; \<open>tokens\<close> is the text cut
  into the matches \<open>finditer\<close> finds, left to right, and the characters between them.
\<close>

datatype tmatch = Escaped | Named string | Braced string | Invalid

datatype token = Lit char | Match tmatch

text \<open>
  The braced alternative, tried on the text after the opening brace: the longest identifier,
  then the closing brace.  It gives the name and the text after the brace.
\<close>

definition braced_at :: "string \<Rightarrow> (string \<times> string) option" where
  "braced_at ds =
     (case ds of
        [] \<Rightarrow> None
      | e # es \<Rightarrow>
          if is_id_start e
          then (case dropWhile is_id_char es of
                  [] \<Rightarrow> None
                | f # fs \<Rightarrow> if f = CHR ''}'' then Some (e # takeWhile is_id_char es, fs) else None)
          else None)"

text \<open>
  The alternatives in the pattern's order: escaped, named, braced, invalid.  The invalid
  alternative matches the delimiter alone, and the scan goes on after it.
\<close>

function tokens :: "string \<Rightarrow> token list" where
  "tokens [] = []"
| "tokens (c # cs) =
     (if c \<noteq> CHR ''$'' then Lit c # tokens cs
      else case cs of
             [] \<Rightarrow> [Match Invalid]
           | d # ds \<Rightarrow>
               if d = CHR ''$'' then Match Escaped # tokens ds
               else if is_id_start d
               then Match (Named (d # takeWhile is_id_char ds)) # tokens (dropWhile is_id_char ds)
               else if d = CHR ''{''
               then (case braced_at ds of
                       Some (n, fs) \<Rightarrow> Match (Braced n) # tokens fs
                     | None \<Rightarrow> Match Invalid # tokens cs)
               else Match Invalid # tokens cs)"
  by pat_completeness auto
termination
proof (relation "measure length")
  show "wf (measure length)" by simp
next
  fix c :: char and cs :: string and x21 :: char and x22 :: string
  assume "cs = x21 # x22"
  have "length (dropWhile is_id_char x22) \<le> length x22" by (rule length_dropWhile_le)
  then show "(dropWhile is_id_char x22, c # cs) \<in> measure length"
    using \<open>cs = x21 # x22\<close> by simp
next
  fix c :: char and cs :: string and x21 :: char and x22 :: string and x2 and x y :: string
  assume a: "cs = x21 # x22" "braced_at x22 = Some x2" "(x, y) = x2"
  then obtain e es f where ds: "x22 = e # es" and dw: "dropWhile is_id_char es = f # y"
    by (auto simp: braced_at_def split: list.splits if_splits)
  have "length (dropWhile is_id_char es) \<le> length es" by (rule length_dropWhile_le)
  with ds dw have "length y < length x22" by simp
  then show "(y, c # cs) \<in> measure length" using a(1) by simp
qed auto

text \<open>\<open>match.group("named")\<close>: the name of a named match, \<open>None\<close> for any other match.\<close>

fun named_group :: "tmatch \<Rightarrow> string option" where
  "named_group (Named n) = Some n"
| "named_group m = None"

fun extract_tokens :: "token list \<Rightarrow> string option list" where
  "extract_tokens [] = []"
| "extract_tokens (Lit c # ts) = extract_tokens ts"
| "extract_tokens (Match m # ts) = named_group m # extract_tokens ts"

definition extract_vars :: "string \<Rightarrow> string option list" where
  "extract_vars template = extract_tokens (tokens template)"

subsection \<open>Dictionaries\<close>

text \<open>
  A \<open>dict\<close> with \<open>str\<close> keys, in insertion order.  Values stand for what \<open>str()\<close> makes of
  them, which is all \<open>substitute\<close> does with a value.  \<open>k in d\<close> is \<open>contains\<close>, \<open>d[k] = v\<close>
  is \<open>setitem\<close>, \<open>d[k]\<close> is \<open>map_of d k\<close>.
\<close>

type_synonym dict = "(string \<times> string) list"

definition contains :: "dict \<Rightarrow> string \<Rightarrow> bool" where
  "contains d k = (map_of d k \<noteq> None)"

fun setitem :: "dict \<Rightarrow> string \<Rightarrow> string \<Rightarrow> dict" where
  "setitem [] k v = [(k, v)]"
| "setitem ((k', v') # d) k v = (if k' = k then (k, v) # d else (k', v') # setitem d k v)"

text \<open>
  \<open>x or {}\<close> and \<open>x or ""\<close>: the dictionary or string when there is one, the empty one
  for \<open>None\<close>.
\<close>

definition or_empty :: "'a list option \<Rightarrow> 'a list" where
  "or_empty x = (case x of None \<Rightarrow> [] | Some y \<Rightarrow> y)"

subsection \<open>interpolate\<close>

text \<open>
  \<open>sep.join(items)\<close> raises \<open>TypeError\<close> when an item is not a \<open>str\<close>, here \<open>None\<close>.
\<close>

fun join_strs :: "string \<Rightarrow> string list \<Rightarrow> string" where
  "join_strs sep [] = []"
| "join_strs sep [x] = x"
| "join_strs sep (x # y # ys) = x @ sep @ join_strs sep (y # ys)"

definition str_join :: "string \<Rightarrow> string option list \<Rightarrow> error + string" where
  "str_join sep items =
     (case those items of None \<Rightarrow> Inl TypeError | Some xs \<Rightarrow> Inr (join_strs sep xs))"

text \<open>
  \<open>string.Template.substitute\<close>: each match is replaced in turn; a name that is not a key
  raises \<open>KeyError\<close>, an invalid match raises \<open>ValueError\<close>.
\<close>

fun substitute_tokens :: "token list \<Rightarrow> dict \<Rightarrow> error + string" where
  "substitute_tokens [] mapping = Inr []"
| "substitute_tokens (Lit c # ts) mapping =
     (case substitute_tokens ts mapping of Inl e \<Rightarrow> Inl e | Inr r \<Rightarrow> Inr (c # r))"
| "substitute_tokens (Match (Named n) # ts) mapping =
     (case map_of mapping n of
        None \<Rightarrow> Inl (KeyError n)
      | Some v \<Rightarrow>
          (case substitute_tokens ts mapping of Inl e \<Rightarrow> Inl e | Inr r \<Rightarrow> Inr (v @ r)))"
| "substitute_tokens (Match (Braced n) # ts) mapping =
     (case map_of mapping n of
        None \<Rightarrow> Inl (KeyError n)
      | Some v \<Rightarrow>
          (case substitute_tokens ts mapping of Inl e \<Rightarrow> Inl e | Inr r \<Rightarrow> Inr (v @ r)))"
| "substitute_tokens (Match Escaped # ts) mapping =
     (case substitute_tokens ts mapping of Inl e \<Rightarrow> Inl e | Inr r \<Rightarrow> Inr (CHR ''$'' # r))"
| "substitute_tokens (Match Invalid # ts) mapping = Inl ValueError"

definition substitute :: "string \<Rightarrow> dict \<Rightarrow> error + string" where
  "substitute template mapping = substitute_tokens (tokens template) mapping"

text \<open>
  \<open>missing = [p for p in vars if p not in params]\<close>; \<open>None\<close> is never a key of \<open>params\<close>.
\<close>

definition missing_vars :: "string \<Rightarrow> dict \<Rightarrow> string option list" where
  "missing_vars text params =
     filter (\<lambda>p. case p of None \<Rightarrow> True | Some n \<Rightarrow> \<not> contains params n) (extract_vars text)"

definition interpolate :: "string option \<Rightarrow> dict \<Rightarrow> error + string option" where
  "interpolate text params =
     (case text of
        None \<Rightarrow> Inr None
      | Some t \<Rightarrow>
          if t = [] then Inr (Some t)
          else (let missing = missing_vars t params
                in if missing \<noteq> []
                   then (case str_join '', '' missing of
                           Inl e \<Rightarrow> Inl e
                         | Inr s \<Rightarrow> Inl (MissingVariables (''Missing variables: '' @ s)))
                   else (case substitute t params of
                           Inl e \<Rightarrow> Inl e
                         | Inr s \<Rightarrow> Inr (Some s))))"

subsection \<open>evaluate\<close>

record template =
  name :: string
  prompt :: "string option"
  system :: "string option"
  model :: "string option"
  defaults :: "dict option"
  options :: "dict option"

text \<open>\<open>for k, v in self.defaults.items(): if k not in params: params[k] = v\<close>\<close>

fun fill_defaults :: "dict \<Rightarrow> dict \<Rightarrow> dict" where
  "fill_defaults [] params = params"
| "fill_defaults ((k, v) # ds) params =
     fill_defaults ds (if \<not> contains params k then setitem params k v else params)"

text \<open>The dictionary \<open>params\<close> as it is when \<open>interpolate\<close> is called.\<close>

definition effective_params :: "template \<Rightarrow> string \<Rightarrow> dict \<Rightarrow> dict" where
  "effective_params self inp params0 =
     (let params1 = setitem params0 ''input'' inp
      in case defaults self of
           None \<Rightarrow> params1
         | Some ds \<Rightarrow> if ds = [] then params1 else fill_defaults ds params1)"

text \<open>
  What a call of \<open>evaluate\<close> leaves behind: the value returned or the exception raised,
  the dictionary the caller passed as \<open>params\<close> (if any), and the template.
  \<open>params = params or {}\<close> keeps the caller's dictionary unless it is \<open>None\<close> or empty; the
  assignments that follow are made to that dictionary.
\<close>

record evaluation =
  result :: "error + (string option \<times> string option)"
  params_after :: "dict option"
  self_after :: template

definition evaluate :: "template \<Rightarrow> string \<Rightarrow> dict option \<Rightarrow> evaluation" where
  "evaluate self inp params =
     (let params' = effective_params self inp (case params of None \<Rightarrow> [] | Some d \<Rightarrow> d);
          res =
            (if prompt self = None \<or> prompt self = Some []
             then (case interpolate (system self) params' of
                     Inl e \<Rightarrow> Inl e
                   | Inr s \<Rightarrow> Inr (Some inp, s))
             else (case interpolate (prompt self) params' of
                     Inl e \<Rightarrow> Inl e
                   | Inr p \<Rightarrow>
                       (case interpolate (system self) params' of
                          Inl e \<Rightarrow> Inl e
                        | Inr s \<Rightarrow> Inr (p, s))))
      in \<lparr>result = res,
          params_after =
            (case params of
               None \<Rightarrow> None
             | Some d \<Rightarrow> if d = [] then Some [] else Some params'),
          self_after = self\<rparr>)"

section \<open>cli.py: get_history and the replay in prompt\<close>

text \<open>
  A row of the table \<open>log\<close> and a message of the list sent to the model.  The table is a
  list of rows in no particular order; \<open>None\<close> for the table means that \<open>log.db\<close> does not
  exist.  The schema migration \<open>migrate(db)\<close> is outside this model.
\<close>

record log_row =
  row_id :: int
  chat_id :: "int option"
  row_system :: "string option"
  row_prompt :: string
  response :: string
  row_model :: string

record message =
  role :: string
  content :: string

text \<open>
  \<open>db["log"].rows_where(where, args, order_by=..., limit=...)\<close>: the rows that satisfy the
  condition, in ascending order of the \<open>order_by\<close> expression, at most \<open>limit\<close> of them.
\<close>

definition rows_where ::
  "(log_row \<Rightarrow> bool) \<Rightarrow> (log_row \<Rightarrow> int) \<Rightarrow> nat option \<Rightarrow> log_row list \<Rightarrow> log_row list" where
  "rows_where cond order_by limit tbl =
     (let rs = sort_key order_by (filter cond tbl)
      in case limit of None \<Rightarrow> rs | Some n \<Rightarrow> take n rs)"

definition get_history ::
  "int option \<Rightarrow> log_row list option \<Rightarrow> error + (int option \<times> log_row list)" where
  "get_history cid log_db =
     (case cid of
        None \<Rightarrow> Inr (None, [])
      | Some c \<Rightarrow>
          (case log_db of
             None \<Rightarrow>
               Inl (ClickException
                     ''This feature requires logging. Run `llm init-db` to create log.db'')
           | Some tbl \<Rightarrow>
               if c = - 1
               then (case rows_where (\<lambda>r. True) (\<lambda>r. - row_id r) (Some 1) tbl of
                       [] \<Rightarrow> Inr (None, [])
                     | last_row # rest \<Rightarrow>
                         (let c' = (case chat_id last_row of
                                      None \<Rightarrow> row_id last_row
                                    | Some x \<Rightarrow> if x = 0 then row_id last_row else x)
                          in Inr (Some c',
                                  rows_where (\<lambda>r. row_id r = c' \<or> chat_id r = Some c')
                                    row_id None tbl)))
               else Inr (Some c,
                         rows_where (\<lambda>r. row_id r = c \<or> chat_id r = Some c)
                           row_id None tbl)))"

text \<open>
  The body of the loop \<open>for entry in history\<close> of \<open>prompt\<close>: the messages one entry
  appends, a system message only when the entry has a non-empty \<open>system\<close>.
\<close>

definition entry_messages :: "log_row \<Rightarrow> message list" where
  "entry_messages entry =
     (case row_system entry of
        None \<Rightarrow> []
      | Some s \<Rightarrow> if s = [] then [] else [\<lparr>role = ''system'', content = s\<rparr>])
     @ [\<lparr>role = ''user'', content = row_prompt entry\<rparr>,
        \<lparr>role = ''assistant'', content = response entry\<rparr>]"

fun history_messages :: "message list \<Rightarrow> log_row list \<Rightarrow> message list" where
  "history_messages messages [] = messages"
| "history_messages messages (entry # history) =
     history_messages (messages @ entry_messages entry) history"

text \<open>A small table: a conversation of the rows 1 and 3, and an unrelated row 2.\<close>

definition example_log :: "log_row list" where
  "example_log =
     [\<lparr>row_id = 3, chat_id = Some 1, row_system = None, row_prompt = ''c'', response = ''C'',
       row_model = ''gpt-4''\<rparr>,
      \<lparr>row_id = 1, chat_id = None, row_system = Some ''be brief'', row_prompt = ''a'',
       response = ''A'', row_model = ''gpt-4''\<rparr>,
      \<lparr>row_id = 2, chat_id = None, row_system = None, row_prompt = ''b'', response = ''B'',
       row_model = ''gpt-4''\<rparr>]"

section \<open>Properties of remove_pref\<close>

lemma search_ws_end_iff: "search_ws_end p = (p \<noteq> [] \<and> is_space (last p))"
proof
  assume "search_ws_end p"
  then have "\<exists>i<length p. is_space (p ! i) \<and>
     (Suc i = length p \<or> (Suc (Suc i) = length p \<and> p ! Suc i = CHR 0x0A))"
    by (simp add: search_ws_end_def list_ex_iff Bex_def)
  then obtain i where i: "i < length p" "is_space (p ! i)"
     "Suc i = length p \<or> (Suc (Suc i) = length p \<and> p ! Suc i = CHR 0x0A)"
    by blast
  then have ne: "p \<noteq> []" by auto
  from i(3) show "p \<noteq> [] \<and> is_space (last p)"
  proof
    assume "Suc i = length p"
    then have "length p - 1 = i" by arith
    then have "last p = p ! i" using ne by (simp add: last_conv_nth)
    with i ne show ?thesis by simp
  next
    assume a: "Suc (Suc i) = length p \<and> p ! Suc i = CHR 0x0A"
    then have "length p - 1 = Suc i" by arith
    then have "last p = CHR 0x0A" using ne a by (simp add: last_conv_nth)
    then show ?thesis using ne by (simp add: is_space_def)
  qed
next
  assume a: "p \<noteq> [] \<and> is_space (last p)"
  then have "length p - 1 < length p" "is_space (p ! (length p - 1))" "Suc (length p - 1) = length p"
    by (auto simp: last_conv_nth)
  then show "search_ws_end p"
    unfolding search_ws_end_def list_ex_iff by (metis atLeastLessThan_iff set_upt zero_le)
qed

lemma store_append_map: "store_append st x = map_option (\<lambda>s. s @ [x]) st"
  by (cases st) (simp_all add: store_append_def)

lemma first_loop_text:
  "prefix buf p \<Longrightarrow>
    \<exists>ys zs bf hp. cs = ys @ zs \<and>
      first_loop p pre buf st (map Txt cs) =
        Inr \<lparr>buffer = bf, has_pre = hp, store = map_option (\<lambda>s. s @ map Txt ys) st, ir = map Txt zs\<rparr> \<and>
      hp = (cs \<noteq> [] \<and> prefix p (buf @ concat cs)) \<and>
      (if hp then prefix p (buf @ concat ys) \<and> bf = drop (length p) (buf @ concat ys)
       else bf = buf @ concat ys)"
proof (induction cs arbitrary: buf st)
  case Nil
  then show ?case by (cases st) auto
next
  case (Cons c cs)
  let ?b = "buf @ c"
  show ?case
  proof (cases "prefix p ?b")
    case True
    then have "prefix p (buf @ c @ concat cs)"
      by (metis append_assoc prefix_prefix)
    with True show ?thesis
      apply (rule_tac x="[c]" in exI)
      apply (rule_tac x="cs" in exI)
      apply (cases st)
      apply (auto simp: store_append_def)
      done
  next
    case np: False
    show ?thesis
    proof (cases "prefix (take (length p + 1) ?b) p")
      case False
      have "\<not> prefix p (?b @ concat cs)"
      proof
        assume "prefix p (?b @ concat cs)"
        then have "prefix ?b p" using np by (auto simp: prefix_append)
        then have "length ?b \<le> length p" by (rule prefix_length_le)
        then have "take (length p + 1) ?b = ?b" by simp
        with \<open>prefix ?b p\<close> False show False by simp
      qed
      then show ?thesis using np False
      apply (rule_tac x="[c]" in exI)
      apply (rule_tac x="cs" in exI)
      apply (cases st)
       apply (auto simp: store_append_def)
        done
    next
      case True
      then have "length (take (length p + 1) ?b) \<le> length p" by (rule prefix_length_le)
      then have "take (length p + 1) ?b = ?b" by simp
      with True have pb: "prefix ?b p" by simp
      from Cons.IH[OF pb, of "store_append st (Txt c)"] obtain ys zs bf hp where
        h: "cs = ys @ zs" "first_loop p pre ?b (store_append st (Txt c)) (map Txt cs) =
        Inr \<lparr>buffer = bf, has_pre = hp, store = map_option (\<lambda>s. s @ map Txt ys) (store_append st (Txt c)), ir = map Txt zs\<rparr>"
        "hp = (cs \<noteq> [] \<and> prefix p (?b @ concat cs))"
        "(if hp then prefix p (?b @ concat ys) \<and> bf = drop (length p) (?b @ concat ys)
       else bf = ?b @ concat ys)" by blast
      have nn: "cs = [] \<Longrightarrow> \<not> prefix p (buf @ c)" using np by simp
      show ?thesis using np True h nn
      apply (rule_tac x="c # ys" in exI)
      apply (rule_tac x="zs" in exI)
        apply (cases st)
        apply (auto simp: store_append_def)
        done
    qed
  qed
qed

lemma second_loop_eq:
  "second_loop pre st xs = (map (apply_preproc pre) xs, map_option (\<lambda>s. s @ xs) st)"
proof (induction xs arbitrary: st)
  case Nil
  show ?case by (cases st) simp_all
next
  case (Cons x xs)
  show ?case by (cases st) (simp_all add: Cons.IH store_append_def)
qed

lemma apply_preproc_Txt: "apply_preproc pre (Txt s) = Txt s"
  by (cases pre) simp_all

lemma first_loop_store:
  "first_loop p pre buf st r = Inr l \<Longrightarrow>
     \<exists>ys. r = ys @ ir l \<and> store l = map_option (\<lambda>s. s @ ys) st"
proof (induction r arbitrary: buf st)
  case Nil
  then show ?case by (cases st) auto
next
  case (Cons x xs)
  show ?case
  proof (cases "apply_preproc pre x")
    case (Raw y)
    with Cons.prems show ?thesis by simp
  next
    case (Txt s)
    let ?b = "buf @ s"
    consider (hit) "prefix p ?b"
      | (miss) "\<not> prefix p ?b" "\<not> prefix (take (length p + 1) ?b) p"
      | (more) "\<not> prefix p ?b" "prefix (take (length p + 1) ?b) p"
      by blast
    then show ?thesis
    proof cases
      case hit
      with Cons.prems Txt have "ir l = xs" "store l = store_append st x" by auto
      then have "x # xs = [x] @ ir l \<and> store l = map_option (\<lambda>s. s @ [x]) st"
        by (simp add: store_append_map)
      then show ?thesis by blast
    next
      case miss
      with Cons.prems Txt have "ir l = xs" "store l = store_append st x" by auto
      then have "x # xs = [x] @ ir l \<and> store l = map_option (\<lambda>s. s @ [x]) st"
        by (simp add: store_append_map)
      then show ?thesis by blast
    next
      case more
      with Cons.prems Txt have "first_loop p pre ?b (store_append st x) xs = Inr l" by simp
      from Cons.IH[OF this] obtain ys where
        ys: "xs = ys @ ir l" "store l = map_option (\<lambda>s. s @ ys) (store_append st x)" by blast
      then have "x # xs = (x # ys) @ ir l \<and> store l = map_option (\<lambda>s. s @ x # ys) st"
        by (cases st) (simp_all add: store_append_def)
      then show ?thesis by blast
    qed
  qed
qed

lemma map_apply_preproc_Txt: "map (apply_preproc pre \<circ> Txt) cs = map Txt cs"
  by (induction cs) (simp_all add: apply_preproc_Txt)

lemma join_segments_Txt: "join_segments (map Txt ss) = Inr (concat ss)"
  by (induction ss) simp_all

lemma remove_pref_store:
  assumes "raised (remove_pref p r st pre) = None"
  shows "store_after (remove_pref p r st pre) = map_option (\<lambda>s. s @ r) st"
proof (cases "first_loop p pre [] st r")
  case (Inl a)
  with assms show ?thesis by (cases a) (simp add: remove_pref_def)
next
  case (Inr l)
  from first_loop_store[OF Inr] obtain ys where
    ys: "r = ys @ ir l" "store l = map_option (\<lambda>s. s @ ys) st" by blast
  have "store_after (remove_pref p r st pre) = map_option (\<lambda>s. s @ ir l) (store l)"
    by (simp add: remove_pref_def Inr second_loop_eq)
  also have "\<dots> = map_option (\<lambda>s. s @ r) st"
    using ys by (cases st) simp_all
  finally show ?thesis .
qed

lemma remove_pref_text:
  "\<exists>ys zs. cs = ys @ zs \<and>
     remove_pref p (map Txt cs) st pre =
       \<lparr>segments = Txt p # (if \<not> (cs \<noteq> [] \<and> prefix p (concat cs)) \<and> \<not> search_ws_end p
                          then [Txt '' ''] else [])
                    @ Txt (if cs \<noteq> [] \<and> prefix p (concat cs)
                           then drop (length p) (concat ys) else concat ys) # map Txt zs,
        store_after = map_option (\<lambda>s. s @ map Txt cs) st, raised = None\<rparr> \<and>
     (cs \<noteq> [] \<and> prefix p (concat cs) \<longrightarrow> prefix p (concat ys))"
proof -
  from first_loop_text[of "[]" p cs pre st] obtain ys zs bf hp where
    h: "cs = ys @ zs"
       "first_loop p pre [] st (map Txt cs) =
          Inr \<lparr>buffer = bf, has_pre = hp, store = map_option (\<lambda>s. s @ map Txt ys) st,
               ir = map Txt zs\<rparr>"
       "hp = (cs \<noteq> [] \<and> prefix p ([] @ concat cs))"
       "if hp then prefix p ([] @ concat ys) \<and> bf = drop (length p) ([] @ concat ys)
        else bf = [] @ concat ys"
    by auto
  have st: "map_option ((\<lambda>s. s @ map Txt zs) \<circ> (\<lambda>s. s @ map Txt ys)) st
              = map_option (\<lambda>s. s @ map Txt cs) st"
    using h(1) by (cases st) simp_all
  have "remove_pref p (map Txt cs) st pre =
       \<lparr>segments = Txt p # (if \<not> hp \<and> \<not> search_ws_end p then [Txt '' ''] else [])
                    @ Txt bf # map Txt zs,
        store_after = map_option (\<lambda>s. s @ map Txt cs) st, raised = None\<rparr>"
    by (simp add: remove_pref_def h(2) second_loop_eq apply_preproc_Txt option.map_comp st
          del: append_assoc)
  with h show ?thesis
    apply (rule_tac x = ys in exI)
    apply (rule_tac x = zs in exI)
    apply (auto split: if_splits)
    done
qed

lemma prefill_present_text:
  "prefill_present p (map Txt cs) pre = (cs \<noteq> [] \<and> prefix p (concat cs))"
  using first_loop_text[of "[]" p cs pre None]
  by (auto simp: prefill_present_def)

text \<open>
  Claim C1.  For every prefill \<open>p\<close> and every finite sequence of text chunks, the segments
  of \<open>remove_pref\<close> concatenate to \<open>p\<close>, then a single space exactly when the prefill was
  judged not present and \<open>p\<close> does not end in whitespace, then the concatenation of the
  chunks, with its prefix \<open>p\<close> dropped (once) when the prefill was judged present.  The
  prefill is judged present exactly when there is a chunk and the concatenated chunks
  start with \<open>p\<close>.
\<close>

theorem remove_pref_roundtrip:
  "join_segments (segments (remove_pref p (map Txt cs) st pre)) =
     Inr (p @ (if \<not> prefill_present p (map Txt cs) pre \<and> \<not> (p \<noteq> [] \<and> is_space (last p))
               then '' '' else [])
            @ (if prefill_present p (map Txt cs) pre
               then drop (length p) (concat cs) else concat cs))
   \<and> prefill_present p (map Txt cs) pre = (cs \<noteq> [] \<and> prefix p (concat cs))"
proof -
  let ?hp = "cs \<noteq> [] \<and> prefix p (concat cs)"
  obtain ys zs where
    h: "cs = ys @ zs"
       "remove_pref p (map Txt cs) st pre =
         \<lparr>segments = Txt p # (if \<not> ?hp \<and> \<not> search_ws_end p then [Txt '' ''] else [])
                    @ Txt (if ?hp then drop (length p) (concat ys) else concat ys) # map Txt zs,
          store_after = map_option (\<lambda>s. s @ map Txt cs) st, raised = None\<rparr>"
       "?hp \<longrightarrow> prefix p (concat ys)"
    using remove_pref_text[of cs p st pre] by blast
  have body: "(if ?hp then drop (length p) (concat ys) else concat ys) @ concat zs =
              (if ?hp then drop (length p) (concat cs) else concat cs)"
  proof (cases ?hp)
    case True
    with h(3) have "length p \<le> length (concat ys)" by (simp add: prefix_length_le)
    with True h(1) show ?thesis by simp
  next
    case False
    with h(1) show ?thesis by auto
  qed
  have "join_segments (segments (remove_pref p (map Txt cs) st pre)) =
        Inr (p @ (if \<not> ?hp \<and> \<not> search_ws_end p then '' '' else [])
               @ (if ?hp then drop (length p) (concat ys) else concat ys) @ concat zs)"
    unfolding h(2) by (simp add: join_segments_Txt)
  then show ?thesis
    unfolding body by (simp add: prefill_present_text search_ws_end_iff)
qed

theorem remove_pref_roundtrip_witness:
  "join_segments (segments (remove_pref ''ab'' (map Txt [''a'', ''bc'', ''d'']) (None :: unit chunk list option) None))
     = Inr ''abcd''
   \<and> join_segments (segments (remove_pref ''ab'' (map Txt [''a'', ''c'']) (None :: unit chunk list option) None))
     = Inr ''ab ac''"
  using remove_pref_roundtrip[of "''ab''" "[''a'', ''bc'', ''d'']" "None :: unit chunk list option" None]
        remove_pref_roundtrip[of "''ab''" "[''a'', ''c'']" "None :: unit chunk list option" None]
  by (simp add: is_space_def)

text \<open>
  Claim C2, as stated, fails: for prefill \<open>The answer is\<close> and the single chunk \<open> 42.\<close>
  the segments do not concatenate to \<open>The answer is 42.\<close>.
\<close>

theorem scenario_A_counterexample:
  "join_segments (segments (remove_pref ''The answer is'' [Txt '' 42.''] (None :: unit chunk list option) None))
     \<noteq> Inr ''The answer is 42.''"
  by (simp add: remove_pref_def search_ws_end_def is_space_def store_append_def)

text \<open>
  Claim C2, amended.  The chunk \<open> 42.\<close> does not start with the prefill, so the prefill is
  judged not present, the separating space is yielded, and the segments
  \<open>The answer is\<close>, one space, \<open> 42.\<close> concatenate to \<open>The answer is  42.\<close> with two
  spaces.
\<close>

theorem scenario_A_two_spaces:
  "join_segments (segments (remove_pref ''The answer is'' [Txt '' 42.''] st pre))
     = Inr ''The answer is  42.''
   \<and> \<not> prefill_present ''The answer is'' [Txt '' 42.''] pre
   \<and> segments (remove_pref ''The answer is'' [Txt '' 42.''] st pre)
     = [Txt ''The answer is'', Txt '' '', Txt '' 42.'']"
  by (simp add: remove_pref_def prefill_present_def search_ws_end_def is_space_def
        apply_preproc_Txt)

text \<open>
  Claim C5.  When the prefill is judged not present (a definite mismatch, or the chunks
  ran out while undecided), the segments are \<open>p\<close>, then a single space exactly when \<open>p\<close>
  does not end in a whitespace character (the empty \<open>p\<close> included), then the buffer and
  the remaining chunks.  For prefill \<open>Hello\<close> and the chunk \<open>Goodbye world\<close> the segments
  concatenate to \<open>Hello Goodbye world\<close>.
\<close>

theorem not_present_separator:
  "(\<not> prefill_present p (map Txt cs) pre \<longrightarrow>
      (\<exists>ys zs. cs = ys @ zs \<and>
         segments (remove_pref p (map Txt cs) st pre) =
           Txt p # (if p \<noteq> [] \<and> is_space (last p) then [] else [Txt '' ''])
             @ Txt (concat ys) # map Txt zs))
   \<and> join_segments (segments (remove_pref ''Hello'' [Txt ''Goodbye world''] st' pre'))
       = Inr ''Hello Goodbye world''"
proof -
  have "join_segments (segments (remove_pref ''Hello'' [Txt ''Goodbye world''] st' pre'))
       = Inr ''Hello Goodbye world''"
    by (simp add: remove_pref_def search_ws_end_def is_space_def apply_preproc_Txt)
  moreover have "\<exists>ys zs. cs = ys @ zs \<and>
         segments (remove_pref p (map Txt cs) st pre) =
           Txt p # (if p \<noteq> [] \<and> is_space (last p) then [] else [Txt '' ''])
             @ Txt (concat ys) # map Txt zs"
    if np: "\<not> prefill_present p (map Txt cs) pre"
  proof -
    from np have "\<not> (cs \<noteq> [] \<and> prefix p (concat cs))" by (simp add: prefill_present_text)
    with remove_pref_text[of cs p st pre] obtain ys zs where
      "cs = ys @ zs"
      "segments (remove_pref p (map Txt cs) st pre) =
         Txt p # (if \<not> search_ws_end p then [Txt '' ''] else []) @ Txt (concat ys) # map Txt zs"
      by auto
    then have "cs = ys @ zs \<and>
         segments (remove_pref p (map Txt cs) st pre) =
           Txt p # (if p \<noteq> [] \<and> is_space (last p) then [] else [Txt '' ''])
             @ Txt (concat ys) # map Txt zs"
      by (simp add: search_ws_end_iff)
    then show ?thesis by blast
  qed
  ultimately show ?thesis by blast
qed

theorem not_present_separator_witness:
  "\<not> prefill_present ''Hi '' (map Txt [''H'', ''o'', ''x'']) (None :: (unit \<Rightarrow> string) option)
   \<and> segments (remove_pref ''Hi '' (map Txt [''H'', ''o'', ''x'']) (None :: unit chunk list option) None)
       = [Txt ''Hi '', Txt ''Ho'', Txt ''x'']
   \<and> \<not> prefill_present ''Hi'' (map Txt [''H'']) (None :: (unit \<Rightarrow> string) option)
   \<and> segments (remove_pref ''Hi'' (map Txt [''H'']) (None :: unit chunk list option) None)
       = [Txt ''Hi'', Txt '' '', Txt ''H'']"
  using not_present_separator[of "''Hi ''" "[''H'', ''o'', ''x'']" "None :: (unit \<Rightarrow> string) option" "None" None None]
     not_present_separator[of "''Hi''" "[''H'']" "None :: (unit \<Rightarrow> string) option" "None" None None]
  by (simp add: remove_pref_def prefill_present_def search_ws_end_def is_space_def)

text \<open>
  Claim C6.  For prefill \<open>abcdef\<close> and chunks \<open>abc\<close>, \<open>def\<close>, \<open>ghi\<close> the first loop is
  still undecided after the first chunk and confirms the match on the second, leaving
  \<open>ghi\<close> in the iterator; the segments concatenate to \<open>abcdefghi\<close>.
\<close>

theorem scenario_C_boundary:
  "join_segments (segments (remove_pref ''abcdef'' [Txt ''abc'', Txt ''def'', Txt ''ghi''] st pre))
     = Inr ''abcdefghi''
   \<and> segments (remove_pref ''abcdef'' [Txt ''abc'', Txt ''def'', Txt ''ghi''] st pre)
     = [Txt ''abcdef'', Txt [], Txt ''ghi'']
   \<and> first_loop ''abcdef'' pre [] st [Txt ''abc'']
     = Inr \<lparr>buffer = ''abc'', has_pre = False, store = store_append st (Txt ''abc''), ir = []\<rparr>
   \<and> first_loop ''abcdef'' pre [] st [Txt ''abc'', Txt ''def'', Txt ''ghi'']
     = Inr \<lparr>buffer = [], has_pre = True,
            store = store_append (store_append st (Txt ''abc'')) (Txt ''def''),
            ir = [Txt ''ghi'']\<rparr>"
  by (simp add: remove_pref_def search_ws_end_def is_space_def apply_preproc_Txt)

text \<open>
  Claim C7, as stated, fails for a supplied store that is not empty: the store does not
  hold exactly the chunks afterwards.
\<close>

theorem store_exact_counterexample:
  "raised (remove_pref ''p'' [Txt ''a''] (Some [Txt ''old'']) (None :: (unit \<Rightarrow> string) option)) = None
   \<and> store_after (remove_pref ''p'' [Txt ''a''] (Some [Txt ''old'']) (None :: (unit \<Rightarrow> string) option))
       \<noteq> Some [Txt ''a'']"
  by (simp add: remove_pref_def search_ws_end_def is_space_def store_append_def)

text \<open>
  Claim C7, amended.  For every prefill, chunk sequence (text or not) and supplied store,
  once the generator has run to its end without raising, the store is its contents at
  the call followed by exactly the original chunks, before \<open>preproc\<close>, in their order.
\<close>

theorem store_appended_chunks:
  "raised (remove_pref p r (Some s) pre) = None \<Longrightarrow>
     store_after (remove_pref p r (Some s) pre) = Some (s @ r)"
  by (simp add: remove_pref_store)

theorem store_appended_chunks_witness:
  "raised (remove_pref ''ab'' [Txt ''a'', Raw (1::nat), Txt ''c'', Raw 2] (Some [Txt ''old''])
             (Some (\<lambda>n. if n = 1 then ''b'' else ''?''))) = None
   \<and> store_after (remove_pref ''ab'' [Txt ''a'', Raw (1::nat), Txt ''c'', Raw 2] (Some [Txt ''old''])
             (Some (\<lambda>n. if n = 1 then ''b'' else ''?'')))
       = Some [Txt ''old'', Txt ''a'', Raw 1, Txt ''c'', Raw 2]
   \<and> segments (remove_pref ''ab'' [Txt ''a'', Raw (1::nat), Txt ''c'', Raw 2] (Some [Txt ''old''])
             (Some (\<lambda>n. if n = 1 then ''b'' else ''?'')))
       = [Txt ''ab'', Txt [], Txt ''c'', Txt ''?'']"
proof -
  let ?run = "remove_pref ''ab'' [Txt ''a'', Raw (1::nat), Txt ''c'', Raw 2] (Some [Txt ''old''])
             (Some (\<lambda>n. if n = 1 then ''b'' else ''?''))"
  have r: "raised ?run = None"
    by (simp add: remove_pref_def store_append_def)
  have s: "segments ?run = [Txt ''ab'', Txt [], Txt ''c'', Txt ''?'']"
    by (simp add: remove_pref_def store_append_def search_ws_end_def is_space_def)
  from store_appended_chunks[OF r] r s show ?thesis by simp
qed

text \<open>
  Claim C9.  For the empty prefill and a non-empty sequence of text chunks the match is
  confirmed on the first chunk and the segments concatenate to the concatenation of the
  chunks; for no chunks at all the segments concatenate to a single space.
\<close>

theorem empty_prefill:
  "join_segments (segments (remove_pref [] (map Txt (c # cs)) st pre)) = Inr (concat (c # cs))
   \<and> first_loop [] pre [] st (map Txt (c # cs))
       = Inr \<lparr>buffer = c, has_pre = True, store = store_append st (Txt c), ir = map Txt cs\<rparr>
   \<and> join_segments (segments (remove_pref [] [] st pre)) = Inr '' ''
   \<and> segments (remove_pref [] [] st pre) = [Txt [], Txt '' '', Txt []]"
  by (simp add: remove_pref_def second_loop_eq apply_preproc_Txt map_apply_preproc_Txt
        join_segments_Txt search_ws_end_def)

section \<open>Properties of Template\<close>

lemma dollar_not_id_char: "\<not> is_id_char (CHR ''$'')"
  by (simp add: is_id_char_def is_id_start_def)

lemma brace_not_id_start: "\<not> is_id_start (CHR ''{'')"
  by (simp add: is_id_start_def)

lemma dollar_not_id_start: "\<not> is_id_start (CHR ''$'')"
  by (simp add: is_id_start_def)

lemma extract_vars_Nil: "extract_vars [] = []"
  by (simp add: extract_vars_def)

lemma extract_vars_Lit: "c \<noteq> CHR ''$'' \<Longrightarrow> extract_vars (c # cs) = extract_vars cs"
  by (simp add: extract_vars_def)

lemma extract_vars_named:
  "is_id_start d \<Longrightarrow>
     extract_vars (CHR ''$'' # d # ds) =
       Some (d # takeWhile is_id_char ds) # extract_vars (dropWhile is_id_char ds)"
  by (auto simp: extract_vars_def dollar_not_id_start)

lemma extract_vars_not_named:
  "\<not> is_id_start d \<Longrightarrow> \<exists>vs. extract_vars (CHR ''$'' # d # ds) = None # vs"
  by (auto simp: extract_vars_def split: option.splits)

lemma dropWhile_keeps:
  "\<not> P y \<Longrightarrow> \<exists>q. dropWhile P (a @ y # r) = q @ y # r \<and> length q \<le> length a"
proof (induction a)
  case Nil
  then show ?case by simp
next
  case (Cons x a)
  then obtain q where q: "dropWhile P (a @ y # r) = q @ y # r" "length q \<le> length a" by blast
  show ?case
  proof (cases "P x")
    case True
    with q show ?thesis by auto
  next
    case False
    then have "dropWhile P ((x # a) @ y # r) = (x # a) @ y # r" by simp
    then show ?thesis by blast
  qed
qed

lemma bad_dollar_None:
  "\<not> is_id_start c \<Longrightarrow> None \<in> set (extract_vars (pre @ CHR ''$'' # c # post))"
proof (induction "length pre" arbitrary: pre rule: less_induct)
  case less
  show ?case
  proof (cases pre)
    case Nil
    with extract_vars_not_named[OF less.prems, of post] show ?thesis by auto
  next
    case (Cons x pre')
    show ?thesis
    proof (cases "x = CHR ''$''")
      case False
      have "None \<in> set (extract_vars (pre' @ CHR ''$'' # c # post))"
        using less.hyps[of pre'] less.prems Cons by simp
      with False Cons show ?thesis by (simp add: extract_vars_Lit)
    next
      case True
      show ?thesis
      proof (cases pre')
        case Nil
        with True Cons extract_vars_not_named[OF dollar_not_id_start, of "c # post"]
        show ?thesis by auto
      next
        case (Cons d pre'')
        show ?thesis
        proof (cases "is_id_start d")
          case False
          with True Cons \<open>pre = x # pre'\<close>
            extract_vars_not_named[OF False, of "pre'' @ CHR ''$'' # c # post"]
          show ?thesis by auto
        next
          case idd: True
          obtain q where q: "dropWhile is_id_char (pre'' @ CHR ''$'' # c # post)
                               = q @ CHR ''$'' # c # post" "length q \<le> length pre''"
            using dropWhile_keeps[of is_id_char "CHR ''$''" "pre''" "c # post"] dollar_not_id_char
            by blast
          have "None \<in> set (extract_vars (q @ CHR ''$'' # c # post))"
            using less.hyps[of q] less.prems q(2) Cons \<open>pre = x # pre'\<close> by simp
          with idd True Cons \<open>pre = x # pre'\<close> q(1) show ?thesis
            by (simp add: extract_vars_named)
        qed
      qed
    qed
  qed
qed

lemma those_None: "None \<in> set xs \<Longrightarrow> those xs = None"
  by (induction xs) (auto split: option.splits)

lemma those_map_Some: "those (map Some xs) = Some xs"
  by (induction xs) simp_all

lemma interpolate_TypeError:
  assumes "None \<in> set (extract_vars t)"
  shows "interpolate (Some t) params = Inl TypeError"
proof -
  from assms have ne: "t \<noteq> []" by (auto simp: extract_vars_Nil)
  from assms have m: "None \<in> set (missing_vars t params)" by (simp add: missing_vars_def)
  then have "missing_vars t params \<noteq> []" by auto
  moreover have "str_join '', '' (missing_vars t params) = Inl TypeError"
    using those_None[OF m] by (simp add: str_join_def)
  ultimately show ?thesis using ne by (simp add: interpolate_def)
qed

lemma substitute_tokens_ok:
  "None \<notin> set (extract_tokens ts) \<Longrightarrow>
   (\<forall>n. Some n \<in> set (extract_tokens ts) \<longrightarrow> contains mapping n) \<Longrightarrow>
   \<exists>s. substitute_tokens ts mapping = Inr s"
proof (induction ts mapping rule: substitute_tokens.induct)
  case (3 n ts mapping)
  then have "contains mapping n" by simp
  then obtain v where v: "map_of mapping n = Some v" by (auto simp: contains_def)
  from "3.prems" have "None \<notin> set (extract_tokens ts)"
    "\<forall>n. Some n \<in> set (extract_tokens ts) \<longrightarrow> contains mapping n" by simp_all
  from "3.IH"[OF v this] obtain s where "substitute_tokens ts mapping = Inr s" by blast
  with v show ?case by simp
qed auto

lemma no_None_map_Some: "None \<notin> set xs \<Longrightarrow> \<exists>ns. xs = map Some ns"
proof (induction xs)
  case Nil
  then show ?case by simp
next
  case (Cons x xs)
  then obtain ns n where "xs = map Some ns" "x = Some n" by (cases x) auto
  then have "x # xs = map Some (n # ns)" by simp
  then show ?case by (rule exI)
qed

lemma interpolate_Missing:
  assumes "None \<notin> set (extract_vars t)" and "missing_vars t params \<noteq> []"
  shows "\<exists>ns. ns \<noteq> [] \<and> missing_vars t params = map Some ns \<and>
           interpolate (Some t) params =
             Inl (MissingVariables (''Missing variables: '' @ join_strs '', '' ns))"
proof -
  from assms(2) have ne: "t \<noteq> []" by (auto simp: missing_vars_def extract_vars_Nil)
  from assms(1) have "None \<notin> set (missing_vars t params)" by (simp add: missing_vars_def)
  then obtain ns where ns: "missing_vars t params = map Some ns"
    using no_None_map_Some by blast
  with assms(2) have "ns \<noteq> []" by auto
  moreover have "interpolate (Some t) params =
             Inl (MissingVariables (''Missing variables: '' @ join_strs '', '' ns))"
    using ne assms(2) ns by (simp add: interpolate_def str_join_def those_map_Some)
  ultimately show ?thesis using ns by blast
qed

lemma interpolate_ok:
  assumes "None \<notin> set (extract_vars t)" and "missing_vars t params = []"
  shows "\<exists>s. interpolate (Some t) params = Inr (Some s)"
proof (cases "t = []")
  case True
  then show ?thesis by (simp add: interpolate_def)
next
  case False
  have "\<forall>n. Some n \<in> set (extract_vars t) \<longrightarrow> contains params n"
  proof (intro allI impI)
    fix n assume "Some n \<in> set (extract_vars t)"
    then have "\<not> contains params n \<Longrightarrow> Some n \<in> set (missing_vars t params)"
      by (simp add: missing_vars_def)
    with assms(2) show "contains params n" by auto
  qed
  with assms(1) obtain s where "substitute t params = Inr s"
    using substitute_tokens_ok[of "tokens t" params]
    by (auto simp: substitute_def extract_vars_def)
  with False assms(2) show ?thesis by (simp add: interpolate_def)
qed

lemma interpolate_None: "interpolate None params = Inr None"
  by (simp add: interpolate_def)

lemma interpolate_empty: "interpolate (Some []) params = Inr (Some [])"
  by (simp add: interpolate_def)

lemma closing_brace_not_id_char: "\<not> is_id_char (CHR ''}'')"
  by (simp add: is_id_char_def is_id_start_def)

lemma braced_at_identifier:
  assumes "is_identifier x"
  shows "braced_at (x @ CHR ''}'' # post) = Some (x, post)"
proof -
  from assms obtain e es where x: "x = e # es" "is_id_start e" "list_all is_id_char es"
    by (auto simp: is_identifier_def split: list.splits)
  from x(3) have all: "\<forall>c\<in>set es. is_id_char c" by (simp add: list_all_iff)
  then have "dropWhile is_id_char (es @ CHR ''}'' # post) = CHR ''}'' # post"
    by (simp add: dropWhile_append2 closing_brace_not_id_char)
  moreover from all have "takeWhile is_id_char (es @ CHR ''}'' # post) = es"
    by (simp add: takeWhile_append2 closing_brace_not_id_char)
  ultimately show ?thesis using x by (simp add: braced_at_def)
qed

text \<open>
  Claim C10.  A pattern text that contains a braced placeholder \<open>${x}\<close>, or an escaped
  \<open>$$\<close>, makes \<open>extract_vars\<close> yield a \<open>None\<close> entry, and \<open>interpolate\<close> raises \<open>TypeError\<close>
  (from joining the missing names): neither \<open>MissingVariables\<close> nor a substitution,
  whatever the parameters bind.  Where \<open>x\<close> is an identifier the match at \<open>${x}\<close> is the
  braced one and its entry is \<open>None\<close>.
\<close>

theorem braced_placeholder_TypeError:
  "interpolate (Some (pre @ ''${'' @ x @ ''}'' @ post)) params = Inl TypeError
   \<and> interpolate (Some (pre @ ''$$'' @ post)) params = Inl TypeError
   \<and> None \<in> set (extract_vars (pre @ ''${'' @ x @ ''}'' @ post))
   \<and> None \<in> set (extract_vars (pre @ ''$$'' @ post))
   \<and> (is_identifier x \<longrightarrow>
        tokens (''${'' @ x @ ''}'' @ post) = Match (Braced x) # tokens post
        \<and> extract_vars (''${'' @ x @ ''}'' @ post) = None # extract_vars post)"
proof -
  have b: "None \<in> set (extract_vars (pre @ ''${'' @ x @ ''}'' @ post))"
    using bad_dollar_None[OF brace_not_id_start, of pre "x @ ''}'' @ post"] by simp
  have e: "None \<in> set (extract_vars (pre @ ''$$'' @ post))"
    using bad_dollar_None[OF dollar_not_id_start, of pre post] by simp
  have t: "tokens (''${'' @ x @ ''}'' @ post) = Match (Braced x) # tokens post"
    if "is_identifier x"
    using braced_at_identifier[OF that, of post] by (simp add: brace_not_id_start)
  from b e t interpolate_TypeError[OF b] interpolate_TypeError[OF e] show ?thesis
    by (simp add: extract_vars_def)
qed

theorem braced_placeholder_TypeError_witness:
  "interpolate (Some ''Hi ${x}!'') [(''x'', ''1'')] = Inl TypeError
   \<and> interpolate (Some ''100$$'') [(''x'', ''1'')] = Inl TypeError
   \<and> is_identifier ''x''
   \<and> extract_vars ''${x}!'' = [None]"
  using braced_placeholder_TypeError[of "''Hi ''" "''x''" "''!''" "[(''x'', ''1'')]"]
        braced_placeholder_TypeError[of "''100''" "''x''" "[]" "[(''x'', ''1'')]"]
  by (simp add: is_identifier_def is_id_start_def extract_vars_def)

text \<open>
  Claim C3, as stated, fails: with prompt pattern \<open>$a\<close>, system pattern \<open>$b\<close> and no
  parameters, the message names \<open>a\<close> only, although \<open>b\<close> is referenced by the system
  pattern and missing from the effective parameters.
\<close>

theorem evaluate_missing_counterexample:
  "result (evaluate \<lparr>name = ''t'', prompt = Some ''$a'', system = Some ''$b'', model = None,
                      defaults = None, options = None\<rparr> ''x'' None)
     = Inl (MissingVariables ''Missing variables: a'')
   \<and> Some ''b'' \<in> set (extract_vars ''$b'')
   \<and> \<not> contains (effective_params \<lparr>name = ''t'', prompt = Some ''$a'', system = Some ''$b'',
                      model = None, defaults = None, options = None\<rparr> ''x'' []) ''b''"
  by (simp add: evaluate_def interpolate_def effective_params_def missing_vars_def
        extract_vars_def contains_def str_join_def is_id_start_def is_id_char_def)

lemma setitem_same: "map_of d k = Some v \<Longrightarrow> setitem d k v = d"
  by (induction d k v rule: setitem.induct) (auto split: if_splits)

lemma map_of_setitem: "map_of (setitem d k v) = (map_of d)(k \<mapsto> v)"
  by (induction d k v rule: setitem.induct) auto

lemma contains_setitem: "contains (setitem d k v) k' = (k' = k \<or> contains d k')"
  by (simp add: contains_def map_of_setitem)

lemma setitem_not_Nil: "setitem d k v \<noteq> []"
  by (cases "(d, k, v)" rule: setitem.cases) auto

lemma fill_defaults_keeps:
  "contains p k \<Longrightarrow> map_of (fill_defaults ds p) k = map_of p k"
proof (induction ds p rule: fill_defaults.induct)
  case (1 params)
  then show ?case by simp
next
  case (2 k0 v0 ds params)
  let ?p = "if \<not> contains params k0 then setitem params k0 v0 else params"
  from "2.prems" have c: "contains ?p k" by (simp add: contains_setitem)
  from "2.prems" have "map_of ?p k = map_of params k"
    by (auto simp: map_of_setitem)
  with "2.IH"[OF c] show ?case by simp
qed

lemma fill_defaults_contains:
  "contains p k \<or> k \<in> fst ` set ds \<Longrightarrow> contains (fill_defaults ds p) k"
proof (induction ds p rule: fill_defaults.induct)
  case (1 params)
  then show ?case by simp
next
  case (2 k0 v0 ds params)
  let ?p = "if \<not> contains params k0 then setitem params k0 v0 else params"
  from "2.prems" have "contains ?p k \<or> k \<in> fst ` set ds"
    by (auto simp: contains_setitem)
  from "2.IH"[OF this] show ?case by simp
qed

lemma fill_defaults_id:
  "\<forall>k \<in> fst ` set ds. contains p k \<Longrightarrow> fill_defaults ds p = p"
  by (induction ds p rule: fill_defaults.induct) auto

lemma fill_defaults_not_Nil: "p \<noteq> [] \<Longrightarrow> fill_defaults ds p \<noteq> []"
  by (induction ds p rule: fill_defaults.induct) (auto simp: setitem_not_Nil)

lemma effective_params_not_Nil: "effective_params self inp d \<noteq> []"
  by (auto simp: effective_params_def Let_def setitem_not_Nil fill_defaults_not_Nil
        split: option.splits)

lemma effective_params_idem:
  "effective_params self inp (effective_params self inp d) = effective_params self inp d"
proof -
  let ?p1 = "setitem d ''input'' inp"
  have c1: "contains ?p1 ''input''" by (simp add: contains_setitem)
  have m1: "map_of ?p1 ''input'' = Some inp" by (simp add: map_of_setitem)
  show ?thesis
  proof (cases "defaults self = None \<or> defaults self = Some []")
    case True
    then have "effective_params self inp d' = setitem d' ''input'' inp" for d'
      by (auto simp: effective_params_def)
    then show ?thesis by (simp add: setitem_same[OF m1])
  next
    case False
    then obtain ds where ds: "defaults self = Some ds" "ds \<noteq> []" by auto
    then have e: "effective_params self inp d' = fill_defaults ds (setitem d' ''input'' inp)"
      for d'
      by (simp add: effective_params_def)
    let ?q = "fill_defaults ds ?p1"
    have "map_of ?q ''input'' = Some inp"
      using fill_defaults_keeps[OF c1] m1 by simp
    then have "setitem ?q ''input'' inp = ?q" by (rule setitem_same)
    moreover have "fill_defaults ds ?q = ?q"
      by (rule fill_defaults_id) (simp add: fill_defaults_contains)
    ultimately show ?thesis by (simp add: e)
  qed
qed

lemma map_of_fill_defaults:
  "map_of (fill_defaults ds p) k = (case map_of p k of Some v \<Rightarrow> Some v | None \<Rightarrow> map_of ds k)"
proof (induction ds p rule: fill_defaults.induct)
  case (1 params)
  then show ?case by (simp split: option.splits)
next
  case (2 k0 v0 ds params)
  then show ?case
    by (auto simp: contains_def map_of_setitem split: option.splits)
qed

lemma map_of_effective_params:
  "map_of (effective_params self inp d) k =
     (if k = ''input'' then Some inp
      else case map_of d k of
             Some v \<Rightarrow> Some v
           | None \<Rightarrow> map_of (or_empty (defaults self)) k)"
  by (auto simp: effective_params_def Let_def or_empty_def map_of_fill_defaults map_of_setitem
        split: option.splits)

lemma contains_effective_params:
  "contains (effective_params self inp d) n =
     (n = ''input'' \<or> contains d n \<or> contains (or_empty (defaults self)) n)"
  by (auto simp: contains_def map_of_effective_params split: option.splits)

lemma interpolate_named:
  assumes "extract_vars (or_empty text) = map Some ns"
  shows "filter (\<lambda>n. \<not> contains params n) ns \<noteq> [] \<Longrightarrow>
           interpolate text params =
             Inl (MissingVariables
                   (''Missing variables: '' @ join_strs '', '' (filter (\<lambda>n. \<not> contains params n) ns)))"
    and "filter (\<lambda>n. \<not> contains params n) ns = [] \<Longrightarrow> \<exists>s. interpolate text params = Inr s"
proof -
  let ?m = "filter (\<lambda>n. \<not> contains params n) ns"
  have mv: "missing_vars (or_empty text) params = map Some ?m"
    by (simp add: missing_vars_def assms filter_map comp_def)
  have nn: "None \<notin> set (extract_vars (or_empty text))" by (auto simp: assms)
  show "interpolate text params =
          Inl (MissingVariables (''Missing variables: '' @ join_strs '', '' ?m))"
    if ne: "?m \<noteq> []"
  proof -
    from ne mv have "missing_vars (or_empty text) params \<noteq> []" by simp
    from interpolate_Missing[OF nn this] obtain ms where
      ms: "missing_vars (or_empty text) params = map Some ms"
          "interpolate (Some (or_empty text)) params =
             Inl (MissingVariables (''Missing variables: '' @ join_strs '', '' ms))"
      by blast
    from ms(1) mv have "ms = ?m" by simp
    moreover from ne assms have "text = Some (or_empty text)"
      by (cases "text") (auto simp: or_empty_def extract_vars_Nil)
    ultimately show ?thesis using ms(2) by simp
  qed
  show "\<exists>s. interpolate text params = Inr s" if "?m = []"
  proof (cases "text")
    case None
    then show ?thesis by (simp add: interpolate_None)
  next
    case (Some t)
    with nn mv that interpolate_ok[of t params] show ?thesis
      by (auto simp: or_empty_def)
  qed
qed

text \<open>
  Claim C3, amended.  For a template whose patterns hold plain \<open>$name\<close> placeholders only,
  a variable is missing when it is not \<open>input\<close>, not a key of \<open>params\<close> and not a key of
  the defaults.  If the prompt pattern references missing variables, \<open>evaluate\<close> raises
  \<open>MissingVariables\<close> with all of them, in order of occurrence.  Otherwise the prompt
  pattern is interpolated and, if the system pattern references missing variables,
  \<open>evaluate\<close> raises \<open>MissingVariables\<close> with all of those.  Otherwise it succeeds, and
  with no prompt pattern the prompt returned is the input.
\<close>

theorem evaluate_outcomes:
  assumes "extract_vars (or_empty (prompt self)) = map Some pn"
    and "extract_vars (or_empty (system self)) = map Some sn"
  shows "(let absent = (\<lambda>n. n \<noteq> ''input'' \<and> \<not> contains (or_empty params) n
                                \<and> \<not> contains (or_empty (defaults self)) n);
              pm = filter absent pn;
              sm = filter absent sn
          in (pm \<noteq> [] \<longrightarrow>
                result (evaluate self inp params) =
                  Inl (MissingVariables (''Missing variables: '' @ join_strs '', '' pm)))
           \<and> (pm = [] \<and> sm \<noteq> [] \<longrightarrow>
                result (evaluate self inp params) =
                  Inl (MissingVariables (''Missing variables: '' @ join_strs '', '' sm))
                \<and> (\<exists>p. interpolate (prompt self)
                          (effective_params self inp (or_empty params)) = Inr p))
           \<and> (pm = [] \<and> sm = [] \<longrightarrow>
                (\<exists>p s. result (evaluate self inp params) = Inr (p, s) \<and>
                       (or_empty (prompt self) = [] \<longrightarrow> p = Some inp))))"
proof -
  let ?eff = "effective_params self inp (or_empty params)"
  let ?absent = "\<lambda>n. n \<noteq> ''input'' \<and> \<not> contains (or_empty params) n
                       \<and> \<not> contains (or_empty (defaults self)) n"
  let ?pm = "filter ?absent pn" and ?sm = "filter ?absent sn"
  let ?res = "result (evaluate self inp params)"
  have ab: "(\<lambda>n. \<not> contains ?eff n) = ?absent"
    by (auto simp: contains_effective_params)
  note P = interpolate_named[OF assms(1), of ?eff, unfolded ab]
  note S = interpolate_named[OF assms(2), of ?eff, unfolded ab]
  have eff: "(case params of None \<Rightarrow> [] | Some d \<Rightarrow> d) = or_empty params"
    by (simp add: or_empty_def)
  have pe: "or_empty (prompt self) = [] \<longleftrightarrow> prompt self = None \<or> prompt self = Some []"
    by (cases "prompt self") (simp_all add: or_empty_def)
  have sys_only: "?res = (case interpolate (system self) ?eff of
                            Inl e \<Rightarrow> Inl e | Inr s \<Rightarrow> Inr (Some inp, s))"
    if "or_empty (prompt self) = []"
    using that by (simp add: evaluate_def Let_def eff pe)
  have both: "?res = (case interpolate (prompt self) ?eff of
                        Inl e \<Rightarrow> Inl e
                      | Inr p \<Rightarrow> (case interpolate (system self) ?eff of
                                   Inl e \<Rightarrow> Inl e | Inr s \<Rightarrow> Inr (p, s)))"
    if "or_empty (prompt self) \<noteq> []"
    using that by (auto simp: evaluate_def Let_def eff pe)
  have pm_empty: "?pm = []" if "or_empty (prompt self) = []"
    using that assms(1) by (simp add: extract_vars_Nil)
  have c1: "?res = Inl (MissingVariables (''Missing variables: '' @ join_strs '', '' ?pm))"
    if ne: "?pm \<noteq> []"
  proof -
    from ne pm_empty have "or_empty (prompt self) \<noteq> []" by blast
    with both P(1)[OF ne] show ?thesis by simp
  qed
  have c2: "?res = Inl (MissingVariables (''Missing variables: '' @ join_strs '', '' ?sm))
            \<and> (\<exists>p. interpolate (prompt self) ?eff = Inr p)"
    if e: "?pm = []" and ne: "?sm \<noteq> []"
  proof -
    from P(2)[OF e] obtain p where p: "interpolate (prompt self) ?eff = Inr p" by blast
    show ?thesis
    proof (cases "or_empty (prompt self) = []")
      case True
      with sys_only S(1)[OF ne] p show ?thesis by simp
    next
      case False
      with both S(1)[OF ne] p show ?thesis by simp
    qed
  qed
  have c3: "\<exists>p s. ?res = Inr (p, s) \<and> (or_empty (prompt self) = [] \<longrightarrow> p = Some inp)"
    if e: "?pm = []" and e': "?sm = []"
  proof -
    from P(2)[OF e] obtain p where p: "interpolate (prompt self) ?eff = Inr p" by blast
    from S(2)[OF e'] obtain s where s: "interpolate (system self) ?eff = Inr s" by blast
    show ?thesis
    proof (cases "or_empty (prompt self) = []")
      case True
      with sys_only s show ?thesis by simp
    next
      case False
      with both p s show ?thesis by simp
    qed
  qed
  from c1 c2 c3 show ?thesis unfolding Let_def by blast
qed

theorem evaluate_outcomes_witness:
  "extract_vars ''Say $input to $who'' = map Some [''input'', ''who'']
   \<and> extract_vars ''$b and $c, $b'' = map Some [''b'', ''c'', ''b'']
   \<and> result (evaluate \<lparr>name = ''t'', prompt = Some ''Say $input to $who'',
                        system = Some ''$b and $c, $b'',
                        model = None, defaults = Some [(''c'', ''C'')], options = None\<rparr>
               ''x'' (Some [(''who'', ''me'')]))
       = Inl (MissingVariables ''Missing variables: b, b'')
   \<and> result (evaluate \<lparr>name = ''t'', prompt = Some ''Say $input to $who'',
                        system = Some ''$b and $c, $b'',
                        model = None, defaults = Some [(''c'', ''C'')], options = None\<rparr>
               ''x'' None)
       = Inl (MissingVariables ''Missing variables: who'')"
proof -
  let ?t = "\<lparr>name = ''t'', prompt = Some ''Say $input to $who'',
                        system = Some ''$b and $c, $b'',
                        model = None, defaults = Some [(''c'', ''C'')], options = None\<rparr>"
  have p: "extract_vars (or_empty (prompt ?t)) = map Some [''input'', ''who'']"
    by (simp add: or_empty_def extract_vars_def is_id_start_def is_id_char_def)
  have s: "extract_vars (or_empty (system ?t)) = map Some [''b'', ''c'', ''b'']"
    by (simp add: or_empty_def extract_vars_def is_id_start_def is_id_char_def)
  from evaluate_outcomes[OF p s, of "Some [(''who'', ''me'')]" "''x''"]
       evaluate_outcomes[OF p s, of None "''x''"] p s
  show ?thesis
    by (simp add: or_empty_def contains_def Let_def)
qed

text \<open>
  A second call of \<open>evaluate\<close> on the same template and input, with \<open>params\<close> as the first
  call left it, returns or raises the same and leaves \<open>params\<close> as it found it.
\<close>

lemma evaluate_repeatable:
  "result (evaluate self inp (params_after (evaluate self inp params)))
       = result (evaluate self inp params)
   \<and> params_after (evaluate self inp (params_after (evaluate self inp params)))
       = params_after (evaluate self inp params)"
proof (cases params)
  case None
  then show ?thesis by (simp add: evaluate_def Let_def)
next
  case (Some d)
  show ?thesis
  proof (cases "d = []")
    case True
    with Some show ?thesis by (simp add: evaluate_def Let_def)
  next
    case False
    with Some have pa: "params_after (evaluate self inp params)
                          = Some (effective_params self inp d)"
      by (simp add: evaluate_def Let_def)
    show ?thesis
      unfolding pa using Some False
      by (simp add: evaluate_def Let_def effective_params_idem effective_params_not_Nil)
  qed
qed

text \<open>
  Claim C4.  The code breaks it: called with the non-empty \<open>params\<close> dictionary
  \<open>{'a': '1'}\<close>, \<open>evaluate\<close> returns the prompt \<open>Say hi\<close> and leaves the caller's dictionary
  with the key \<open>input\<close> added.  Called with an empty dictionary or with \<open>None\<close> it leaves
  the caller's value as it was.
\<close>

theorem evaluate_mutates_params:
  "result (evaluate \<lparr>name = ''t'', prompt = Some ''Say $input'', system = None,
                      model = None, defaults = None, options = None\<rparr>
             ''hi'' (Some [(''a'', ''1'')]))
     = Inr (Some ''Say hi'', None)
   \<and> params_after (evaluate \<lparr>name = ''t'', prompt = Some ''Say $input'', system = None,
                      model = None, defaults = None, options = None\<rparr>
             ''hi'' (Some [(''a'', ''1'')]))
     = Some [(''a'', ''1''), (''input'', ''hi'')]
   \<and> params_after (evaluate \<lparr>name = ''t'', prompt = Some ''Say $input'', system = None,
                      model = None, defaults = None, options = None\<rparr>
             ''hi'' (Some []))
     = Some []
   \<and> params_after (evaluate \<lparr>name = ''t'', prompt = Some ''Say $input'', system = None,
                      model = None, defaults = None, options = None\<rparr>
             ''hi'' None)
     = None"
  by (simp add: evaluate_def effective_params_def Let_def interpolate_def missing_vars_def
        extract_vars_def contains_def substitute_def is_id_start_def is_id_char_def)

section \<open>Properties of get_history and the replay\<close>

lemma history_messages_concat:
  "history_messages messages history = messages @ concat (map entry_messages history)"
  by (induction history arbitrary: messages) simp_all

lemma rows_where_by_id:
  assumes "distinct (map row_id tbl)"
  shows "sorted_wrt (<) (map row_id (rows_where cond row_id None tbl))"
    and "set (rows_where cond row_id None tbl) = {r \<in> set tbl. cond r}"
proof -
  let ?rs = "sort_key row_id (filter cond tbl)"
  have "distinct (map row_id (filter cond tbl))"
    using assms by (rule distinct_map_filter)
  then have "distinct (map row_id ?rs)" by (simp add: distinct_map)
  moreover have "sorted (map row_id ?rs)" by (rule sorted_sort_key)
  ultimately show "sorted_wrt (<) (map row_id (rows_where cond row_id None tbl))"
    by (simp add: rows_where_def strict_sorted_iff)
  show "set (rows_where cond row_id None tbl) = {r \<in> set tbl. cond r}"
    by (simp add: rows_where_def)
qed

lemma get_history_shape:
  assumes "get_history cid (Some tbl) = Inr (c, history)"
  shows "(c = None \<and> history = [])
     \<or> (\<exists>k. c = Some k \<and>
            history = rows_where (\<lambda>r. row_id r = k \<or> chat_id r = Some k) row_id None tbl)"
proof (cases cid)
  case None
  with assms show ?thesis by (simp add: get_history_def)
next
  case (Some c0)
  show ?thesis
  proof (cases "c0 = - 1")
    case False
    with Some assms show ?thesis by (auto simp: get_history_def)
  next
    case True
    show ?thesis
    proof (cases "rows_where (\<lambda>r. True) (\<lambda>r. - row_id r) (Some 1) tbl")
      case Nil
      with True Some assms show ?thesis by (simp add: get_history_def)
    next
      case (Cons last_row rest)
      define k where "k = (case chat_id last_row of
                             None \<Rightarrow> row_id last_row
                           | Some x \<Rightarrow> if x = 0 then row_id last_row else x)"
      from Cons True Some have
        "get_history cid (Some tbl) =
           Inr (Some k, rows_where (\<lambda>r. row_id r = k \<or> chat_id r = Some k) row_id None tbl)"
        by (simp add: get_history_def Let_def k_def)
      with assms have
        "c = Some k"
        "history = rows_where (\<lambda>r. row_id r = k \<or> chat_id r = Some k) row_id None tbl"
        by auto
      then show ?thesis by blast
    qed
  qed
qed

text \<open>
  Claim C8.  In a table whose row ids are distinct, the history \<open>get_history\<close> returns for
  a conversation is in strictly ascending order of row id and holds exactly the rows of
  that conversation, and the replay appends the messages of its entries in that order.
\<close>

theorem history_replayed_in_id_order:
  assumes "distinct (map row_id tbl)"
    and "get_history cid (Some tbl) = Inr (c, history)"
  shows "sorted_wrt (<) (map row_id history)
     \<and> history_messages [] history = concat (map entry_messages history)
     \<and> (case c of
          None \<Rightarrow> history = []
        | Some k \<Rightarrow> set history = {r \<in> set tbl. row_id r = k \<or> chat_id r = Some k})"
proof -
  have m: "history_messages [] history = concat (map entry_messages history)"
    by (simp add: history_messages_concat)
  from get_history_shape[OF assms(2)] consider
      (none) "c = None" "history = []"
    | (some) k where "c = Some k"
        "history = rows_where (\<lambda>r. row_id r = k \<or> chat_id r = Some k) row_id None tbl"
    by blast
  then show ?thesis
  proof cases
    case none
    with m show ?thesis by simp
  next
    case some
    with m rows_where_by_id[OF assms(1), of "\<lambda>r. row_id r = k \<or> chat_id r = Some k"]
    show ?thesis by simp
  qed
qed


theorem history_replayed_in_id_order_witness:
  "distinct (map row_id example_log)
   \<and> get_history (Some 1) (Some example_log)
       = Inr (Some 1, [example_log ! 1, example_log ! 0])
   \<and> map row_id [example_log ! 1, example_log ! 0] = [1, 3]
   \<and> history_messages [] [example_log ! 1, example_log ! 0]
       = [\<lparr>role = ''system'', content = ''be brief''\<rparr>,
          \<lparr>role = ''user'', content = ''a''\<rparr>, \<lparr>role = ''assistant'', content = ''A''\<rparr>,
          \<lparr>role = ''user'', content = ''c''\<rparr>, \<lparr>role = ''assistant'', content = ''C''\<rparr>]"
proof -
  have d: "distinct (map row_id example_log)" by (simp add: example_log_def)
  have g: "get_history (Some 1) (Some example_log)
             = Inr (Some 1, [example_log ! 1, example_log ! 0])"
    by (simp add: get_history_def rows_where_def example_log_def)
  from history_replayed_in_id_order[OF d g] d g show ?thesis
    by (simp add: example_log_def entry_messages_def)
qed

end
